theory Spec2Isabelle
  imports
    Complex_Main
    "HOL-Library.List_Lexorder"
    "HOL-Library.Product_Lexorder"
    "HOL-Library.Log_Nat"
begin

section \<open>Text\<close>

text \<open>
  A Python \<^verbatim>\<open>str\<close> is a sequence of Unicode code points. Code points are natural
  numbers, so that a string is compared the way Python compares it (lexicographically, by
  code point).
\<close>

type_synonym codepoint = nat
type_synonym str = "codepoint list"

text \<open>
  \<^verbatim>\<open>str.split()\<close>, the regular expression \<^verbatim>\<open>\w\<close> and \<^verbatim>\<open>float()\<close> consult the
  Unicode character database of the interpreter for the code points above ASCII. That
  database is no part of \<^verbatim>\<open>main.py\<close>: it is a parameter of the model, and what the
  program does on ASCII is written out below.
  \<^item> \<open>space_hi c\<close>: \<^verbatim>\<open>Py_UNICODE_ISSPACE\<close> (as in \<^verbatim>\<open>str.isspace\<close>);
  \<^item> \<open>alnum_hi c\<close>: \<^verbatim>\<open>Py_UNICODE_ISALNUM\<close> (as in \<^verbatim>\<open>str.isalnum\<close>);
  \<^item> \<open>decimal_hi c\<close>: \<^verbatim>\<open>Py_UNICODE_TODECIMAL\<close>, the value of a decimal digit.
\<close>

record unicode_db =
  space_hi :: "codepoint \<Rightarrow> bool"
  alnum_hi :: "codepoint \<Rightarrow> bool"
  decimal_hi :: "codepoint \<Rightarrow> nat option"

text \<open>
  The database restricted to Latin-1 (U+0080 to U+00FF); beyond U+00FF it answers no.
  It serves to run the model on concrete Latin-1 input.
\<close>

definition latin1_db :: unicode_db where
  "latin1_db =
     \<lparr> space_hi = (\<lambda>c. c = 0x85 \<or> c = 0xA0),
       alnum_hi = (\<lambda>c. c = 0xAA \<or> c = 0xB2 \<or> c = 0xB3 \<or> c = 0xB5 \<or> c = 0xB9 \<or> c = 0xBA
                     \<or> (0xBC \<le> c \<and> c \<le> 0xBE) \<or> (0xC0 \<le> c \<and> c \<le> 0xD6)
                     \<or> (0xD8 \<le> c \<and> c \<le> 0xF6) \<or> (0xF8 \<le> c \<and> c \<le> 0xFF)),
       decimal_hi = (\<lambda>c. None) \<rparr>"

definition ascii :: "string \<Rightarrow> str" where
  "ascii s = map of_char s"

definition is_space :: "unicode_db \<Rightarrow> codepoint \<Rightarrow> bool" where
  "is_space db c =
     (if c < 128 then (9 \<le> c \<and> c \<le> 13) \<or> (28 \<le> c \<and> c \<le> 32) else space_hi db c)"

definition is_ascii_digit :: "codepoint \<Rightarrow> bool" where
  "is_ascii_digit c = (48 \<le> c \<and> c \<le> 57)"

definition is_word_char :: "unicode_db \<Rightarrow> codepoint \<Rightarrow> bool" where
  "is_word_char db c =
     (if c < 128
      then is_ascii_digit c \<or> (65 \<le> c \<and> c \<le> 90) \<or> (97 \<le> c \<and> c \<le> 122) \<or> c = 95
      else alnum_hi db c)"

section \<open>Cleaning a line\<close>

text \<open>\<^verbatim>\<open>line.split('#', 1)[0]\<close>: the part of the line before the first \<^verbatim>\<open>#\<close> (U+0023).\<close>

definition strip_comment :: "str \<Rightarrow> str" where
  "strip_comment line = takeWhile (\<lambda>c. c \<noteq> 35) line"

text \<open>
  \<^verbatim>\<open>re.compile(r'"[^"]*"').sub(' ', line)\<close>: scanning from the left, a double quote
  (U+0022) that has a later double quote is replaced, together with everything up to and
  including the next one, by one space; a double quote with no later one stays.
\<close>

function quoted_string_sub :: "str \<Rightarrow> str" where
  "quoted_string_sub [] = []"
| "quoted_string_sub (c # cs) =
     (if c = 34
      then (case dropWhile (\<lambda>d. d \<noteq> 34) cs of
              [] \<Rightarrow> c # cs
            | _ # rest \<Rightarrow> 32 # quoted_string_sub rest)
      else c # quoted_string_sub cs)"
  by pat_completeness auto
termination
proof (relation "measure length")
  fix c x :: codepoint and cs rest :: str
  assume "dropWhile (\<lambda>d. d \<noteq> 34) cs = x # rest"
  then have "length (x # rest) \<le> length cs"
    using length_dropWhile_le [of "\<lambda>d. d \<noteq> 34" cs] by simp
  then show "(rest, c # cs) \<in> measure length" by simp
qed simp_all

text \<open>\<^verbatim>\<open>line.replace(old, ' ')\<close> for a one-character \<^verbatim>\<open>old\<close>.\<close>

definition replace_char :: "codepoint \<Rightarrow> str \<Rightarrow> str" where
  "replace_char old line = map (\<lambda>c. if c = old then 32 else c) line"

text \<open>\<^verbatim>\<open>line.replace('=', ' ').replace('{', ' ').replace('}', ' ')\<close>\<close>

definition replace_operators :: "str \<Rightarrow> str" where
  "replace_operators line = replace_char 125 (replace_char 123 (replace_char 61 line))"

text \<open>
  \<^verbatim>\<open>line.split()\<close>: the maximal runs of characters that are not whitespace, in order.
\<close>

function split_ws :: "unicode_db \<Rightarrow> str \<Rightarrow> str list" where
  "split_ws db line =
     (case dropWhile (is_space db) line of
        [] \<Rightarrow> []
      | c # cs \<Rightarrow> takeWhile (\<lambda>d. \<not> is_space db d) (c # cs)
                 # split_ws db (dropWhile (\<lambda>d. \<not> is_space db d) cs))"
  by pat_completeness auto
termination
proof (relation "measure (\<lambda>(db, line). length line)")
  fix db :: unicode_db and line :: str and c cs
  assume "dropWhile (is_space db) line = c # cs"
  then have "length (c # cs) \<le> length line"
    using length_dropWhile_le [of "is_space db" line] by simp
  moreover have "length (dropWhile (\<lambda>d. \<not> is_space db d) cs) \<le> length cs"
    by (rule length_dropWhile_le)
  ultimately show "((db, dropWhile (\<lambda>d. \<not> is_space db d) cs), (db, line))
      \<in> measure (\<lambda>(db, line). length line)"
    by simp
qed simp

declare split_ws.simps [simp del]

text \<open>Steps 1 to 4 of the loop body: the candidate tokens of one line.\<close>

definition line_tokens :: "unicode_db \<Rightarrow> str \<Rightarrow> str list" where
  "line_tokens db line =
     split_ws db (replace_operators (quoted_string_sub (strip_comment line)))"

section \<open>Classifying a token\<close>

subsection \<open>\<^verbatim>\<open>float(s)\<close> on a string\<close>

text \<open>
  \<^verbatim>\<open>is_number\<close> calls \<^verbatim>\<open>float(s)\<close> and asks only whether it raises \<^verbatim>\<open>ValueError\<close>.
  The interpreter (\<^verbatim>\<open>PyFloat_FromString\<close>) works in four steps, modelled in its order:
  \<^enum> a string that is not pure ASCII is rewritten: a character below 127 stays, Unicode
    whitespace becomes a space, a Unicode decimal digit becomes its ASCII digit, and at
    the first other character the string is cut and ends in \<^verbatim>\<open>?\<close>;
  \<^enum> if the string has an underscore, every underscore must stand between two ASCII
    digits, and the underscores are removed;
  \<^enum> ASCII whitespace is stripped at both ends;
  \<^enum> what is left must be, as a whole, an optional sign followed by \<^verbatim>\<open>inf\<close>,
    \<^verbatim>\<open>infinity\<close> or \<^verbatim>\<open>nan\<close> in any letter case, or by a decimal number: digits with an
    optional point (at least one digit before or after it) and an optional exponent
    \<^verbatim>\<open>e\<close> or \<^verbatim>\<open>E\<close>, optional sign, digits.
\<close>

fun transform_chars :: "unicode_db \<Rightarrow> str \<Rightarrow> str" where
  "transform_chars db [] = []"
| "transform_chars db (c # cs) =
     (if c < 127 then c # transform_chars db cs
      else if is_space db c then 32 # transform_chars db cs
      else (case (if c < 128 then None else decimal_hi db c) of
              None \<Rightarrow> [63]
            | Some d \<Rightarrow> (48 + d) # transform_chars db cs))"

definition transform_decimal_and_space :: "unicode_db \<Rightarrow> str \<Rightarrow> str" where
  "transform_decimal_and_space db s = (if list_all (\<lambda>c. c < 128) s then s else transform_chars db s)"

fun underscores_ok :: "codepoint \<Rightarrow> str \<Rightarrow> bool" where
  "underscores_ok prev [] = (prev \<noteq> 95)"
| "underscores_ok prev (c # cs) =
     (if c = 95 then is_ascii_digit prev \<and> underscores_ok c cs
      else (prev = 95 \<longrightarrow> is_ascii_digit c) \<and> underscores_ok c cs)"

definition c_isspace :: "codepoint \<Rightarrow> bool" where
  "c_isspace c = ((9 \<le> c \<and> c \<le> 13) \<or> c = 32)"

definition strip_c_space :: "str \<Rightarrow> str" where
  "strip_c_space s = rev (dropWhile c_isspace (rev (dropWhile c_isspace s)))"

definition to_lower :: "codepoint \<Rightarrow> codepoint" where
  "to_lower c = (if 65 \<le> c \<and> c \<le> 90 then c + 32 else c)"

definition drop_sign :: "str \<Rightarrow> str" where
  "drop_sign s = (case s of [] \<Rightarrow> [] | c # cs \<Rightarrow> if c = 43 \<or> c = 45 then cs else s)"

definition inf_or_nan :: "str \<Rightarrow> bool" where
  "inf_or_nan s =
     (let l = map to_lower s
      in l = ascii ''inf'' \<or> l = ascii ''infinity'' \<or> l = ascii ''nan'')"

definition exponent_part :: "str \<Rightarrow> bool" where
  "exponent_part s =
     (case s of
        [] \<Rightarrow> True
      | c # cs \<Rightarrow> (c = 101 \<or> c = 69) \<and> drop_sign cs \<noteq> [] \<and> list_all is_ascii_digit (drop_sign cs))"

definition decimal_number :: "str \<Rightarrow> bool" where
  "decimal_number s =
     (let ip = takeWhile is_ascii_digit s;
          r = dropWhile is_ascii_digit s
      in case r of
           [] \<Rightarrow> ip \<noteq> []
         | c # cs \<Rightarrow>
             if c = 46
             then (ip \<noteq> [] \<or> takeWhile is_ascii_digit cs \<noteq> [])
                  \<and> exponent_part (dropWhile is_ascii_digit cs)
             else ip \<noteq> [] \<and> exponent_part r)"

definition string_to_double_ok :: "str \<Rightarrow> bool" where
  "string_to_double_ok s = (inf_or_nan (drop_sign s) \<or> decimal_number (drop_sign s))"

definition float_parses :: "unicode_db \<Rightarrow> str \<Rightarrow> bool" where
  "float_parses db s =
     (let t = transform_decimal_and_space db s
      in if 95 \<in> set t
         then underscores_ok 0 t \<and> string_to_double_ok (strip_c_space (filter (\<lambda>c. c \<noteq> 95) t))
         else string_to_double_ok (strip_c_space t))"

text \<open>\<^verbatim>\<open>is_number(s)\<close>: \<^verbatim>\<open>True\<close> when \<^verbatim>\<open>float(s)\<close> returns, \<^verbatim>\<open>False\<close> when it raises.\<close>

definition is_number :: "unicode_db \<Rightarrow> str \<Rightarrow> bool" where
  "is_number db s = float_parses db s"

subsection \<open>The word pattern and the counter\<close>

text \<open>
  \<^verbatim>\<open>re.compile(r'\w+').fullmatch(token)\<close>: the pattern is a \<^verbatim>\<open>str\<close> pattern with no
  flag, so \<^verbatim>\<open>\w\<close> is a Unicode alphanumeric or the underscore.
\<close>

definition word_fullmatch :: "unicode_db \<Rightarrow> str \<Rightarrow> bool" where
  "word_fullmatch db token = (token \<noteq> [] \<and> list_all (is_word_char db) token)"

text \<open>
  \<^verbatim>\<open>keyword_counts\<close> is a \<^verbatim>\<open>Counter\<close>: a dictionary in insertion order whose missing
  keys count 0. \<open>counter_add\<close> is \<^verbatim>\<open>keyword_counts[token] += 1\<close>.
\<close>

type_synonym counter = "(str \<times> int) list"

fun counter_add :: "str \<Rightarrow> counter \<Rightarrow> counter" where
  "counter_add k [] = [(k, 0 + 1)]"
| "counter_add k ((k', n) # kvs) =
     (if k = k' then (k', n + 1) # kvs else (k', n) # counter_add k kvs)"

text \<open>Step 5 of the loop body, for one token: the chain of \<^verbatim>\<open>continue\<close>s, then the count.\<close>

definition process_token :: "unicode_db \<Rightarrow> str \<Rightarrow> counter \<Rightarrow> counter" where
  "process_token db token keyword_counts =
     (if token = [] then keyword_counts
      else if token = [61] \<or> token = [123] \<or> token = [125] then keyword_counts
      else if is_number db token then keyword_counts
      else if word_fullmatch db token then counter_add token keyword_counts
      else keyword_counts)"

section \<open>Progress\<close>

subsection \<open>Floating-point arithmetic\<close>

text \<open>
  \<^verbatim>\<open>int((bytes_read / total_size) * 100)\<close> divides two integers into a \<^verbatim>\<open>float\<close>,
  multiplies the \<^verbatim>\<open>float\<close> by 100 and truncates. Both operations round their exact
  result to the nearest IEEE 754 binary64 value, ties to even: 53 significant bits, the
  least exponent of the last bit being \<open>-1074\<close>. A value is a rational number here; a
  result that rounds to \<open>2 ^ 1024\<close> or more is an overflow.
\<close>

definition round_half_even :: "rat \<Rightarrow> int" where
  "round_half_even x =
     (let n = \<lfloor>x\<rfloor>; r = x - of_int n
      in if r < 1 / 2 then n else if 1 / 2 < r then n + 1 else if even n then n else n + 1)"

text \<open>For \<open>0 < x\<close>, the \<open>k\<close> with \<open>2 ^ k \<le> x < 2 ^ (k + 1)\<close>.\<close>

definition floor_log2 :: "rat \<Rightarrow> int" where
  "floor_log2 x =
     (let k = bitlen (fst (quotient_of x)) - bitlen (snd (quotient_of x))
      in if x < 2 powi k then k - 1 else k)"

definition binary64 :: "rat \<Rightarrow> rat" where
  "binary64 x =
     (if x = 0 then 0
      else let e = max (floor_log2 \<bar>x\<bar> - 52) (- 1074)
           in sgn x * of_int (round_half_even (\<bar>x\<bar> / 2 powi e)) * 2 powi e)"

datatype exn =
    FileNotFoundError
  | OSError
  | UnicodeError
  | LookupError
  | ZeroDivisionError
  | OverflowError

text \<open>
  \<^verbatim>\<open>current_percent = int((bytes_read / total_size) * 100)\<close>. The division raises
  \<^verbatim>\<open>ZeroDivisionError\<close> on a zero divisor and \<^verbatim>\<open>OverflowError\<close> when the quotient is too
  large for a \<^verbatim>\<open>float\<close>; a product that overflows is infinite, and \<^verbatim>\<open>int\<close> of it raises
  \<^verbatim>\<open>OverflowError\<close>.
\<close>

definition current_percent :: "nat \<Rightarrow> nat \<Rightarrow> exn + int" where
  "current_percent bytes_read total_size =
     (if total_size = 0 then Inl ZeroDivisionError
      else let q = binary64 (of_nat bytes_read / of_nat total_size)
           in if 2 ^ 1024 \<le> q then Inl OverflowError
              else let p = binary64 (q * 100)
                   in if 2 ^ 1024 \<le> p then Inl OverflowError else Inr \<lfloor>p\<rfloor>)"

subsection \<open>Encoded length of a line\<close>

text \<open>
  \<^verbatim>\<open>len(line.encode(encoding, errors='ignore'))\<close> depends on the \<^verbatim>\<open>encoding\<close> argument:
  the model takes it as a function from the line to the number of bytes. Two codecs are
  written out. A surrogate code point cannot be encoded and is dropped by
  \<^verbatim>\<open>errors='ignore'\<close>. The \<^verbatim>\<open>utf-16\<close> codec starts every encoded string with a byte-order
  mark of two bytes.
\<close>

definition utf8_len :: "str \<Rightarrow> nat" where
  "utf8_len line =
     sum_list (map (\<lambda>c. if c < 0x80 then 1 else if c < 0x800 then 2
                         else if 0xD800 \<le> c \<and> c \<le> 0xDFFF then 0
                         else if c < 0x10000 then 3 else 4) line)"

definition utf16_len :: "str \<Rightarrow> nat" where
  "utf16_len line =
     2 + sum_list (map (\<lambda>c. if 0xD800 \<le> c \<and> c \<le> 0xDFFF then 0
                             else if c < 0x10000 then 2 else 4) line)"

section \<open>The run\<close>

text \<open>What the program prints, one constructor for each \<^verbatim>\<open>print\<close> of \<^verbatim>\<open>count_keywords\<close>.\<close>

datatype message =
    ErrorFileNotFound
  | AnalyzingFile
  | Reading int
  | FileReadingComplete
  | ErrorFileNotFoundInTry
  | ErrorWhileReading exn
  | TryChangingEncoding
  | WritingResults
  | CsvCreated
  | ErrorWritingCsv

text \<open>The local variables of the loop, and the output so far.\<close>

record loop_state =
  keyword_counts :: counter
  bytes_read :: nat
  last_percent :: int
  printed :: "message list"

text \<open>
  The body of \<^verbatim>\<open>for line in f\<close>. An exception leaves the loop with the state before the
  line: nothing is printed or counted between the start of the body and the division.
\<close>

definition process_line ::
  "unicode_db \<Rightarrow> (str \<Rightarrow> nat) \<Rightarrow> nat \<Rightarrow> loop_state \<Rightarrow> str \<Rightarrow> exn + loop_state" where
  "process_line db encoded_len total_size st line =
     (let b = bytes_read st + encoded_len line
      in case current_percent b total_size of
           Inl e \<Rightarrow> Inl e
         | Inr p \<Rightarrow>
             Inr \<lparr> keyword_counts = fold (process_token db) (line_tokens db line) (keyword_counts st),
                   bytes_read = b,
                   last_percent = (if p > last_percent st then p else last_percent st),
                   printed = (if p > last_percent st then printed st @ [Reading p] else printed st) \<rparr>)"

fun read_loop ::
  "unicode_db \<Rightarrow> (str \<Rightarrow> nat) \<Rightarrow> nat \<Rightarrow> loop_state \<Rightarrow> str list \<Rightarrow> (exn \<times> loop_state) + loop_state" where
  "read_loop db encoded_len total_size st [] = Inr st"
| "read_loop db encoded_len total_size st (line # rest) =
     (case process_line db encoded_len total_size st line of
        Inl e \<Rightarrow> Inl (e, st)
      | Inr st' \<Rightarrow> read_loop db encoded_len total_size st' rest)"

text \<open>
  The world the function runs in:
  \<^item> \<open>path_exists\<close>: \<^verbatim>\<open>os.path.exists(file_path)\<close>;
  \<^item> \<open>total_size\<close>: \<^verbatim>\<open>os.path.getsize(file_path)\<close>;
  \<^item> \<open>lines\<close>: the lines that \<^verbatim>\<open>for line in f\<close> yields, decoded, each with its newline;
  \<^item> \<open>raises\<close>: the exception that \<^verbatim>\<open>open\<close> (then with no line) or the reading of the
    next line raises after those lines, if any;
  \<^item> \<open>write_fails\<close>: whether opening or writing the CSV file raises.
\<close>

record world =
  path_exists :: bool
  total_size :: nat
  lines :: "str list"
  raises :: "exn option"
  write_fails :: bool

text \<open>
  A cell of the CSV file is a string or an integer, a row is what \<^verbatim>\<open>writerow\<close> receives.
  The CSV file after the run: not opened, written whole, or left by a failed write.
\<close>

datatype cell = S str | I int

datatype csv_file = NotWritten | Written "cell list list" | WriteFailed

record run =
  stdout :: "message list"
  csv :: csv_file

text \<open>The two \<^verbatim>\<open>except\<close> clauses of the reading block; both \<^verbatim>\<open>return\<close>.\<close>

definition except_reading :: "exn \<Rightarrow> loop_state \<Rightarrow> run" where
  "except_reading e st =
     (if e = FileNotFoundError
      then \<lparr> stdout = printed st @ [ErrorFileNotFoundInTry], csv = NotWritten \<rparr>
      else \<lparr> stdout = printed st @ [ErrorWhileReading e, TryChangingEncoding], csv = NotWritten \<rparr>)"

text \<open>\<^verbatim>\<open>sorted(keyword_counts.items(), key=lambda item: (-item[1], item[0]))\<close>\<close>

definition sorted_keywords :: "counter \<Rightarrow> (str \<times> int) list" where
  "sorted_keywords kc = sort_key (\<lambda>item. (- snd item, fst item)) kc"

definition csv_rows :: "(str \<times> int) list \<Rightarrow> cell list list" where
  "csv_rows rows = [S (ascii ''Keyword''), S (ascii ''Count'')] # map (\<lambda>item. [S (fst item), I (snd item)]) rows"

definition count_keywords :: "unicode_db \<Rightarrow> (str \<Rightarrow> nat) \<Rightarrow> world \<Rightarrow> run" where
  "count_keywords db encoded_len w =
     (if \<not> path_exists w then \<lparr> stdout = [ErrorFileNotFound], csv = NotWritten \<rparr>
      else
        let st0 = \<lparr> keyword_counts = [], bytes_read = 0, last_percent = - 1,
                    printed = [AnalyzingFile] \<rparr>
        in case read_loop db encoded_len (total_size w) st0 (lines w) of
             Inl (e, st) \<Rightarrow> except_reading e st
           | Inr st \<Rightarrow>
               (case raises w of
                  Some e \<Rightarrow> except_reading e st
                | None \<Rightarrow>
                    let out = printed st @ [Reading 100, FileReadingComplete, WritingResults]
                    in if write_fails w
                       then \<lparr> stdout = out @ [ErrorWritingCsv], csv = WriteFailed \<rparr>
                       else \<lparr> stdout = out @ [CsvCreated],
                              csv = Written (csv_rows (sorted_keywords (keyword_counts st))) \<rparr>))"

section \<open>Notions used in the properties\<close>

text \<open>The candidate tokens of all lines, in the order in which the loops meet them.\<close>

definition all_tokens :: "unicode_db \<Rightarrow> str list \<Rightarrow> str list" where
  "all_tokens db ls = concat (map (line_tokens db) ls)"

text \<open>
  The tokens that reach \<^verbatim>\<open>keyword_counts[token] += 1\<close>: no \<^verbatim>\<open>continue\<close> is taken and
  the word pattern matches.
\<close>

definition counted :: "unicode_db \<Rightarrow> str \<Rightarrow> bool" where
  "counted db token =
     (\<not> (token = []) \<and> \<not> (token = [61] \<or> token = [123] \<or> token = [125])
      \<and> \<not> is_number db token \<and> word_fullmatch db token)"

text \<open>The percentages of the progress messages, in the order in which they are printed.\<close>

definition percentages :: "message list \<Rightarrow> int list" where
  "percentages ms = concat (map (\<lambda>m. case m of Reading p \<Rightarrow> [p] | _ \<Rightarrow> []) ms)"

text \<open>
  The order of the report as the specification words it: a row comes before another when
  its count is greater, or the counts are equal and its token is smaller, tokens being
  compared lexicographically by code point.
\<close>

definition row_before :: "str \<times> int \<Rightarrow> str \<times> int \<Rightarrow> bool" where
  "row_before r1 r2 = (snd r1 > snd r2 \<or> (snd r1 = snd r2 \<and> fst r1 < fst r2))"

text \<open>
  The character class \<^verbatim>\<open>[A-Za-z0-9_]+\<close> of the specification, matched against a whole
  token.
\<close>

definition ascii_word_spec :: "str \<Rightarrow> bool" where
  "ascii_word_spec token =
     (token \<noteq> [] \<and>
      list_all (\<lambda>c. (65 \<le> c \<and> c \<le> 90) \<or> (97 \<le> c \<and> c \<le> 122) \<or> (48 \<le> c \<and> c \<le> 57) \<or> c = 95) token)"

text \<open>
  The numeric tokens of the specification: a whole token that is a decimal number, integer
  or floating-point, with an optional sign.
\<close>

definition numeric_literal_spec :: "str \<Rightarrow> bool" where
  "numeric_literal_spec token = decimal_number (drop_sign token)"

text \<open>
  The end-to-end scenario of the specification: a file of four lines and 69 bytes, read
  as UTF-8 without failure.
\<close>

definition scenario :: world where
  "scenario =
     \<lparr> path_exists = True,
       total_size = 69,
       lines = [ascii ''name = '' @ [34] @ ascii ''Test Block'' @ [34, 10],
                ascii ''size = 10'' @ [10],
                ascii ''color = { 1.0 0.5 0.2 }'' @ [10],
                ascii ''name = enabled'' @ [10]],
       raises = None,
       write_fails = False \<rparr>"

text \<open>
  A file of ten bytes in UTF-16 (a byte-order mark, then the two lines \<^verbatim>\<open>a\<close> and
  \<^verbatim>\<open>b\<close>), for a call with \<^verbatim>\<open>encoding='utf-16'\<close>.
\<close>

definition utf16_two_lines :: world where
  "utf16_two_lines =
     \<lparr> path_exists = True,
       total_size = 10,
       lines = [[97, 10], [98, 10]],
       raises = None,
       write_fails = False \<rparr>"

text \<open>The characters of which a decimal number is made.\<close>

definition num_char :: "codepoint \<Rightarrow> bool" where
  "num_char c = (is_ascii_digit c \<or> c = 46 \<or> c = 101 \<or> c = 69 \<or> c = 43 \<or> c = 45)"

section \<open>Properties\<close>

subsection \<open>The tokens of a line\<close>

lemma split_ws_token:
  "t \<in> set (split_ws db line) \<Longrightarrow> t \<noteq> [] \<and> set t \<subseteq> set line \<and> (\<forall>c\<in>set t. \<not> is_space db c)"
proof (induction db line rule: split_ws.induct)
  case (1 db line)
  show ?case
  proof (cases "dropWhile (is_space db) line")
    case Nil
    with "1.prems" show ?thesis by (simp add: split_ws.simps [of db line])
  next
    case (Cons c cs)
    have sub: "set (c # cs) \<subseteq> set line"
      using set_dropWhileD [of _ "is_space db" line] Cons by auto
    have c: "\<not> is_space db c"
      using hd_dropWhile [of "is_space db" line] Cons by simp
    from "1.prems" Cons
    consider "t = takeWhile (\<lambda>d. \<not> is_space db d) (c # cs)"
      | "t \<in> set (split_ws db (dropWhile (\<lambda>d. \<not> is_space db d) cs))"
      by (auto simp: split_ws.simps [of db line])
    then show ?thesis
    proof cases
      case 1
      have "set t \<subseteq> set (c # cs)"
        unfolding 1 using set_takeWhileD [of _ "\<lambda>d. \<not> is_space db d" "c # cs"] by blast
      moreover have "\<forall>x\<in>set t. \<not> is_space db x"
        unfolding 1 using set_takeWhileD [of _ "\<lambda>d. \<not> is_space db d" "c # cs"] by blast
      moreover have "t \<noteq> []" unfolding 1 using c by simp
      ultimately show ?thesis using sub by blast
    next
      case 2
      from "1.IH" [OF Cons 2]
      have "t \<noteq> []" "set t \<subseteq> set (dropWhile (\<lambda>d. \<not> is_space db d) cs)"
        "\<forall>c\<in>set t. \<not> is_space db c" by auto
      moreover have "set (dropWhile (\<lambda>d. \<not> is_space db d) cs) \<subseteq> set cs"
        using set_dropWhileD by fastforce
      ultimately show ?thesis using sub by auto
    qed
  qed
qed

lemma replace_operators_set:
  "c \<in> set (replace_operators line) \<Longrightarrow> c \<noteq> 61 \<and> c \<noteq> 123 \<and> c \<noteq> 125"
  by (auto simp: replace_operators_def replace_char_def split: if_splits)

text \<open>
  C10. For every line, no candidate token obtained by comment removal, quoted-string
  replacement, operator replacement and splitting on whitespace is empty, and none is
  \<^verbatim>\<open>=\<close>, \<^verbatim>\<open>{\<close> or \<^verbatim>\<open>}\<close> (no token even contains one of these characters): the first two
  \<^verbatim>\<open>continue\<close> branches of the token loop are never taken.
\<close>

theorem no_empty_or_operator_token:
  "\<forall>token \<in> set (line_tokens db line).
     token \<noteq> [] \<and> token \<noteq> [61] \<and> token \<noteq> [123] \<and> token \<noteq> [125]
     \<and> 61 \<notin> set token \<and> 123 \<notin> set token \<and> 125 \<notin> set token"
proof
  fix token assume "token \<in> set (line_tokens db line)"
  then have t: "token \<noteq> []"
    "set token \<subseteq> set (replace_operators (quoted_string_sub (strip_comment line)))"
    using split_ws_token unfolding line_tokens_def by blast+
  have "61 \<notin> set token \<and> 123 \<notin> set token \<and> 125 \<notin> set token"
    using t(2) replace_operators_set by blast
  then show "token \<noteq> [] \<and> token \<noteq> [61] \<and> token \<noteq> [123] \<and> token \<noteq> [125]
     \<and> 61 \<notin> set token \<and> 123 \<notin> set token \<and> 125 \<notin> set token"
    using t(1) by auto
qed

theorem no_empty_or_operator_token_witness:
  "ascii ''b'' \<in> set (line_tokens latin1_db (ascii ''a = { b }''))
   \<and> ascii ''b'' \<noteq> [] \<and> ascii ''b'' \<noteq> [61] \<and> ascii ''b'' \<noteq> [123] \<and> ascii ''b'' \<noteq> [125]
   \<and> 61 \<notin> set (ascii ''b'') \<and> 123 \<notin> set (ascii ''b'') \<and> 125 \<notin> set (ascii ''b'')"
proof -
  have m: "ascii ''b'' \<in> set (line_tokens latin1_db (ascii ''a = { b }''))"
    by code_simp
  show ?thesis
    using m no_empty_or_operator_token [of latin1_db "ascii ''a = { b }''", THEN bspec, OF m]
    by simp
qed

subsection \<open>Comments and quoted strings\<close>

lemma strip_comment_append:
  "35 \<notin> set pre \<Longrightarrow> strip_comment (pre @ 35 # rest) = pre"
  unfolding strip_comment_def by (subst takeWhile_append2) auto

lemma strip_comment_id:
  "35 \<notin> set pre \<Longrightarrow> strip_comment pre = pre"
  unfolding strip_comment_def by (simp add: takeWhile_eq_all_conv) blast

lemma quoted_string_sub_prefix:
  "34 \<notin> set u \<Longrightarrow> quoted_string_sub (u @ v) = u @ quoted_string_sub v"
  by (induction u) auto

lemma quoted_string_sub_open:
  "34 \<notin> set q \<Longrightarrow> quoted_string_sub (34 # q) = 34 # q"
proof -
  assume "34 \<notin> set q"
  then have "dropWhile (\<lambda>d. d \<noteq> 34) q = []" by (simp add: dropWhile_eq_Nil_conv) blast
  then show ?thesis by (simp del: dropWhile_eq_Nil_conv)
qed

lemma quoted_string_sub_closed:
  "34 \<notin> set q \<Longrightarrow> quoted_string_sub (34 # q @ 34 # v) = 32 # quoted_string_sub v"
proof -
  assume "34 \<notin> set q"
  then have "dropWhile (\<lambda>d. d \<noteq> 34) (q @ 34 # v) = 34 # v"
    by (subst dropWhile_append2) auto
  then show ?thesis by simp
qed

text \<open>
  C4. Comment removal comes before quoted-string removal. Everything from the first
  \<^verbatim>\<open>#\<close> of a line on is discarded, whatever precedes it: the tokens of \<open>pre # rest\<close>
  are those of \<open>pre\<close>. That holds when the \<^verbatim>\<open>#\<close> stands inside a double-quoted
  string: the opening quote then has lost its closing quote and stays in the line. Only
  then is each quoted string that remains before the \<^verbatim>\<open>#\<close> replaced by one space.
\<close>

theorem comment_removed_before_quoted_strings:
  assumes "35 \<notin> set pre" and "35 \<notin> set u" "35 \<notin> set q" "35 \<notin> set v"
    and "34 \<notin> set u" "34 \<notin> set q"
  shows "line_tokens db (pre @ 35 # rest) = line_tokens db pre
    \<and> line_tokens db (u @ 34 # q @ 35 # rest) = split_ws db (replace_operators (u @ 34 # q))
    \<and> line_tokens db (u @ 34 # q @ 34 # v @ 35 # rest)
        = split_ws db (replace_operators (u @ 32 # quoted_string_sub v))"
proof (intro conjI)
  show "line_tokens db (pre @ 35 # rest) = line_tokens db pre"
    using assms(1) by (simp add: line_tokens_def strip_comment_append strip_comment_id)
next
  have "35 \<notin> set (u @ 34 # q)" using assms by simp
  then have "strip_comment ((u @ 34 # q) @ 35 # rest) = u @ 34 # q"
    by (rule strip_comment_append)
  moreover have "quoted_string_sub (u @ 34 # q) = u @ 34 # q"
    using assms by (simp add: quoted_string_sub_prefix quoted_string_sub_open del: quoted_string_sub.simps)
  ultimately show "line_tokens db (u @ 34 # q @ 35 # rest)
      = split_ws db (replace_operators (u @ 34 # q))"
    by (simp add: line_tokens_def)
next
  have "35 \<notin> set (u @ 34 # q @ 34 # v)" using assms by simp
  then have "strip_comment ((u @ 34 # q @ 34 # v) @ 35 # rest) = u @ 34 # q @ 34 # v"
    by (rule strip_comment_append)
  moreover have "quoted_string_sub (u @ 34 # q @ 34 # v) = u @ 32 # quoted_string_sub v"
    using assms by (simp add: quoted_string_sub_prefix quoted_string_sub_closed del: quoted_string_sub.simps)
  ultimately show "line_tokens db (u @ 34 # q @ 34 # v @ 35 # rest)
      = split_ws db (replace_operators (u @ 32 # quoted_string_sub v))"
    by (simp add: line_tokens_def)
qed

theorem comment_removed_before_quoted_strings_witness:
  "35 \<notin> set (ascii ''k '') \<and> 35 \<notin> set (ascii ''a '') \<and> 35 \<notin> set (ascii ''x'')
   \<and> 35 \<notin> set (ascii '' b'') \<and> 34 \<notin> set (ascii ''a '') \<and> 34 \<notin> set (ascii ''x'')
   \<and> line_tokens latin1_db (ascii ''k '' @ 35 # ascii ''y'' @ 34 # ascii '' c'') = [ascii ''k'']
   \<and> line_tokens latin1_db (ascii ''a '' @ 34 # ascii ''x'' @ 35 # ascii ''y'' @ 34 # ascii '' c'')
       = [ascii ''a'', 34 # ascii ''x'']
   \<and> line_tokens latin1_db
         (ascii ''a '' @ 34 # ascii ''x'' @ 34 # ascii '' b'' @ 35 # ascii ''y'' @ 34 # ascii '' c'')
       = [ascii ''a'', ascii ''b'']"
proof -
  have h: "35 \<notin> set (ascii ''k '')" "35 \<notin> set (ascii ''a '')" "35 \<notin> set (ascii ''x'')"
    "35 \<notin> set (ascii '' b'')" "34 \<notin> set (ascii ''a '')" "34 \<notin> set (ascii ''x'')"
    by (simp_all add: ascii_def)
  have e1: "line_tokens latin1_db (ascii ''k '') = [ascii ''k'']"
    by code_simp
  have e2: "split_ws latin1_db (replace_operators (ascii ''a '' @ 34 # ascii ''x''))
      = [ascii ''a'', 34 # ascii ''x'']"
    by code_simp
  have e3: "split_ws latin1_db (replace_operators (ascii ''a '' @ 32 # quoted_string_sub (ascii '' b'')))
      = [ascii ''a'', ascii ''b'']"
    by code_simp
  show ?thesis
    using h e1 e2 e3
      comment_removed_before_quoted_strings
        [OF h, of latin1_db "ascii ''y'' @ 34 # ascii '' c''"]
    by simp
qed

subsection \<open>The counter\<close>

lemma process_token_counted:
  "process_token db token kc = (if counted db token then counter_add token kc else kc)"
  by (simp add: process_token_def counted_def)

lemma map_of_counter_add:
  "map_of (counter_add k kc) = (map_of kc)(k \<mapsto> (case map_of kc k of None \<Rightarrow> 1 | Some n \<Rightarrow> n + 1))"
  by (induction kc) (auto simp: fun_eq_iff)

lemma keys_counter_add:
  "fst ` set (counter_add k kc) = insert k (fst ` set kc)"
proof (induction kc)
  case Nil
  then show ?case by simp
next
  case (Cons a kc)
  obtain k' n where a: "a = (k', n)" by (cases a)
  show ?case
  proof (cases "k = k'")
    case True
    then show ?thesis using a by auto
  next
    case False
    then show ?thesis using a Cons.IH by auto
  qed
qed

lemma distinct_counter_add:
  "distinct (map fst kc) \<Longrightarrow> distinct (map fst (counter_add k kc))"
proof (induction kc)
  case Nil
  then show ?case by simp
next
  case (Cons a kc)
  obtain k' n where a: "a = (k', n)" by (cases a)
  show ?case
  proof (cases "k = k'")
    case True
    with Cons.prems a show ?thesis by simp
  next
    case False
    have "k' \<notin> fst ` set (counter_add k kc)"
      using Cons.prems False a by (simp add: keys_counter_add)
    with Cons a False show ?thesis by simp
  qed
qed

lemma distinct_process_token:
  "distinct (map fst kc) \<Longrightarrow> distinct (map fst (process_token db a kc))"
  by (simp add: process_token_counted distinct_counter_add)

lemma distinct_fold_process_token:
  "distinct (map fst kc) \<Longrightarrow> distinct (map fst (fold (process_token db) ts kc))"
  by (induction ts arbitrary: kc) (simp_all add: distinct_process_token)

lemma map_of_fold_process_token:
  "map_of (fold (process_token db) ts kc) t =
     (if count_list (filter (counted db) ts) t = 0 then map_of kc t
      else Some ((case map_of kc t of None \<Rightarrow> 0 | Some n \<Rightarrow> n)
                 + int (count_list (filter (counted db) ts) t)))"
proof (induction ts arbitrary: kc)
  case Nil
  then show ?case by simp
next
  case (Cons a ts)
  have "map_of (fold (process_token db) (a # ts) kc) t
      = map_of (fold (process_token db) ts (process_token db a kc)) t"
    by simp
  also note Cons.IH [of "process_token db a kc"]
  finally have e: "map_of (fold (process_token db) (a # ts) kc) t =
     (if count_list (filter (counted db) ts) t = 0 then map_of (process_token db a kc) t
      else Some ((case map_of (process_token db a kc) t of None \<Rightarrow> 0 | Some n \<Rightarrow> n)
                 + int (count_list (filter (counted db) ts) t)))" .
  have pt: "process_token db a kc = (if counted db a then counter_add a kc else kc)"
    by (rule process_token_counted)
  show ?case
    unfolding e pt by (auto simp: map_of_counter_add split: option.split)
qed

lemma counter_rows:
  "(t, n) \<in> set (fold (process_token db) ts []) \<longleftrightarrow>
     n = int (count_list (filter (counted db) ts) t) \<and> t \<in> set (filter (counted db) ts)"
proof -
  have d: "distinct (map fst (fold (process_token db) ts []))"
    by (rule distinct_fold_process_token) simp
  have "(t, n) \<in> set (fold (process_token db) ts [])
      \<longleftrightarrow> map_of (fold (process_token db) ts []) t = Some n"
    using d by simp
  also have "\<dots> \<longleftrightarrow> n = int (count_list (filter (counted db) ts) t)
      \<and> count_list (filter (counted db) ts) t \<noteq> 0"
    by (auto simp: map_of_fold_process_token)
  also have "\<dots> \<longleftrightarrow> n = int (count_list (filter (counted db) ts) t)
      \<and> t \<in> set (filter (counted db) ts)"
    by (auto simp: count_list_0_iff)
  finally show ?thesis .
qed

lemma read_loop_counts:
  "read_loop db enc tot st ls = Inr st' \<Longrightarrow>
     keyword_counts st' = fold (process_token db) (all_tokens db ls) (keyword_counts st)"
proof (induction ls arbitrary: st)
  case Nil
  then show ?case by (simp add: all_tokens_def)
next
  case (Cons l ls)
  from Cons.prems obtain st1 where
    l: "process_line db enc tot st l = Inr st1" and
    r: "read_loop db enc tot st1 ls = Inr st'"
    by (auto split: sum.splits)
  from l have "keyword_counts st1 = fold (process_token db) (line_tokens db l) (keyword_counts st)"
    by (auto simp: process_line_def Let_def split: sum.splits)
  with Cons.IH [OF r] show ?case by (simp add: all_tokens_def)
qed

lemma csv_written:
  "csv (count_keywords db enc w) = Written file \<Longrightarrow>
     file = csv_rows (sorted_keywords (fold (process_token db) (all_tokens db (lines w)) []))"
  by (auto simp: count_keywords_def except_reading_def Let_def
      dest!: read_loop_counts split: if_splits sum.splits option.splits)

subsection \<open>The percentage\<close>

lemma round_half_even_le:
  "x \<le> of_int N \<Longrightarrow> round_half_even x \<le> N"
proof -
  assume x: "x \<le> of_int N"
  then have f: "\<lfloor>x\<rfloor> \<le> N" by (simp add: floor_le_iff)
  show ?thesis
  proof (cases "\<lfloor>x\<rfloor> = N")
    case True
    then have "x - of_int \<lfloor>x\<rfloor> \<le> 0" using x by simp
    then have "x - of_int \<lfloor>x\<rfloor> < 1 / 2" by linarith
    then show ?thesis using True by (simp add: round_half_even_def Let_def)
  next
    case False
    with f have "\<lfloor>x\<rfloor> + 1 \<le> N" by linarith
    then show ?thesis by (simp add: round_half_even_def Let_def)
  qed
qed

lemma round_half_even_nonneg:
  "0 \<le> x \<Longrightarrow> 0 \<le> round_half_even x"
  by (simp add: round_half_even_def Let_def)

lemma floor_log2_upper:
  assumes "0 < x" and "x < 2 ^ n"
  shows "floor_log2 x \<le> int n"
proof -
  obtain p q where pq: "quotient_of x = (p, q)" by (cases "quotient_of x")
  then have q: "0 < q" using quotient_of_denom_pos by blast
  have x: "x = of_int p / of_int q" using pq by (rule quotient_of_div)
  have p: "0 < p" using assms(1) q x by (simp add: zero_less_divide_iff)
  define k where "k = bitlen p - bitlen q"
  have bp: "2 ^ nat (bitlen p - 1) \<le> p" using bitlen_bounds [OF p] by simp
  have bq: "q < 2 ^ nat (bitlen q)" using bitlen_bounds [OF q] by simp
  have "bitlen p \<noteq> 0" using p by (simp add: bitlen_eq_zero_iff)
  then have bp1: "1 \<le> bitlen p" using bitlen_nonneg [of p] by linarith
  have "bitlen q \<noteq> 0" using q by (simp add: bitlen_eq_zero_iff)
  then have bq1: "1 \<le> bitlen q" using bitlen_nonneg [of q] by linarith
  define a where "a = nat (bitlen p - 1)"
  define b where "b = nat (bitlen q)"
  have kab: "k - 1 = int a - int b" using bp1 bq1 by (simp add: k_def a_def b_def)
  have pa: "(2::rat) ^ a \<le> of_int p"
  proof -
    have "rat_of_int (2 ^ a) \<le> of_int p" using bp unfolding a_def by (subst of_int_le_iff)
    then show ?thesis by simp
  qed
  have qb: "rat_of_int q < 2 ^ b"
  proof -
    have "rat_of_int q < of_int (2 ^ b)" using bq unfolding b_def by (subst of_int_less_iff)
    then show ?thesis by simp
  qed
  have "(2::rat) powi (k - 1) = 2 ^ a / 2 ^ b"
    unfolding kab by (subst power_int_diff) simp_all
  also have "\<dots> < of_int p / of_int q"
  proof -
    have "(2::rat) ^ a * of_int q \<le> of_int p * of_int q"
      using pa q by (simp add: mult_right_mono)
    also have "\<dots> < of_int p * 2 ^ b"
      using qb p by (simp add: mult_strict_left_mono)
    finally show ?thesis using q by (simp add: divide_simps mult.commute)
  qed
  finally have low: "(2::rat) powi (k - 1) < x" using x by simp
  have "(2::rat) powi (k - 1) < 2 powi (int n)" using low assms(2) by simp
  have "k - 1 < int n"
  proof (rule ccontr)
    assume "\<not> k - 1 < int n"
    then have "int n \<le> k - 1" by simp
    then have "(2::rat) powi (int n) \<le> 2 powi (k - 1)"
      by (rule power_int_increasing) simp
    with \<open>(2::rat) powi (k - 1) < 2 powi (int n)\<close> show False by simp
  qed
  moreover have "floor_log2 x \<le> k"
    by (simp add: floor_log2_def Let_def pq k_def)
  ultimately show ?thesis by linarith
qed

lemma binary64_nonneg: "0 \<le> x \<Longrightarrow> 0 \<le> binary64 x"
  by (simp add: binary64_def Let_def round_half_even_nonneg)

lemma binary64_le:
  assumes "0 \<le> x" and "x \<le> of_nat c" and "c < 2 ^ 52"
  shows "binary64 x \<le> of_nat c"
proof (cases "x = 0")
  case True
  then show ?thesis by (simp add: binary64_def)
next
  case False
  with assms(1) have pos: "0 < x" by simp
  define e where "e = max (floor_log2 x - 52) (- 1074)"
  have "x < 2 ^ 52"
  proof -
    have "rat_of_nat c < of_nat (2 ^ 52)" using assms(3) by (subst of_nat_less_iff)
    with assms(2) show ?thesis by simp
  qed
  then have "floor_log2 x \<le> 52" using floor_log2_upper [OF pos, of 52] by simp
  then have e0: "e \<le> 0" by (simp add: e_def)
  define n where "n = nat (- e)"
  have e: "e = - int n" using e0 by (simp add: n_def)
  have pw: "(2::rat) powi e = 1 / 2 ^ n" unfolding e by (simp add: power_int_minus_divide)
  have "x / 2 powi e \<le> of_int (int c * 2 ^ n)"
    using assms(2) by (simp add: pw)
  then have "round_half_even (x / 2 powi e) \<le> int c * 2 ^ n"
    by (rule round_half_even_le)
  then have "rat_of_int (round_half_even (x / 2 powi e)) \<le> of_int (int c * 2 ^ n)"
    by (subst of_int_le_iff)
  then have "rat_of_int (round_half_even (x / 2 powi e)) * 2 powi e \<le> of_nat c"
    by (simp add: pw divide_simps)
  then show ?thesis
    using pos by (simp add: binary64_def Let_def e_def)
qed

lemma current_percent_bounds:
  assumes "0 < t" and "b \<le> t"
  shows "\<exists>p. current_percent b t = Inr p \<and> 0 \<le> p \<and> p \<le> 100"
proof -
  define q where "q = binary64 (of_nat b / of_nat t)"
  have q0: "0 \<le> q" unfolding q_def by (rule binary64_nonneg) simp
  have "rat_of_nat b / of_nat t \<le> of_nat 1" using assms by simp
  then have q1: "q \<le> of_nat 1" unfolding q_def by (intro binary64_le) simp_all
  define p where "p = binary64 (q * 100)"
  have p0: "0 \<le> p" unfolding p_def by (rule binary64_nonneg) (use q0 in simp)
  have "q * 100 \<le> of_nat 100" using q1 by simp
  then have p1: "p \<le> of_nat 100" unfolding p_def by (intro binary64_le) (use q0 in simp_all)
  have big: "(100::rat) < 2 ^ 1024" by simp
  have "\<not> 2 ^ 1024 \<le> q" using q1 big by simp
  moreover have "\<not> 2 ^ 1024 \<le> p" using p1 big by simp
  moreover have "0 \<le> \<lfloor>p\<rfloor>" using p0 by simp
  moreover have "\<lfloor>p\<rfloor> \<le> 100" using p1 by (simp add: floor_le_iff)
  ultimately show ?thesis
    using assms(1) by (simp add: current_percent_def Let_def q_def p_def)
qed

subsection \<open>Progress and failures\<close>

lemma percentages_append: "percentages (xs @ ys) = percentages xs @ percentages ys"
  by (simp add: percentages_def)

lemma percentages_Reading: "percentages (map Reading ps) = ps"
  by (induction ps) (simp_all add: percentages_def)

lemma percentages_Nil: "percentages [] = []"
  by (simp add: percentages_def)

lemma percentages_Cons:
  "percentages (m # ms) = (case m of Reading p \<Rightarrow> [p] | _ \<Rightarrow> []) @ percentages ms"
  by (simp add: percentages_def)

lemma process_line_progress:
  assumes "0 < tot" and "bytes_read st + enc l \<le> tot"
  shows "\<exists>st' ps. process_line db enc tot st l = Inr st'
     \<and> bytes_read st' = bytes_read st + enc l
     \<and> printed st' = printed st @ map Reading ps
     \<and> (ps = [] \<and> last_percent st' = last_percent st
         \<or> (\<exists>p. ps = [p] \<and> last_percent st < p \<and> p \<le> 100 \<and> last_percent st' = p))"
proof -
  obtain p where p: "current_percent (bytes_read st + enc l) tot = Inr p" "p \<le> 100"
    using current_percent_bounds [OF assms] by blast
  show ?thesis
  proof (cases "p > last_percent st")
    case True
    define st' where "st' = \<lparr> keyword_counts =
        fold (process_token db) (line_tokens db l) (keyword_counts st),
        bytes_read = bytes_read st + enc l, last_percent = p,
        printed = printed st @ [Reading p] \<rparr>"
    have "process_line db enc tot st l = Inr st'"
      using p True by (simp add: process_line_def Let_def st'_def)
    then show ?thesis
      using p True by (intro exI [of _ st'] exI [of _ "[p]"]) (simp add: st'_def)
  next
    case False
    define st' where "st' = \<lparr> keyword_counts =
        fold (process_token db) (line_tokens db l) (keyword_counts st),
        bytes_read = bytes_read st + enc l, last_percent = last_percent st,
        printed = printed st \<rparr>"
    have "process_line db enc tot st l = Inr st'"
      using p False by (simp add: process_line_def Let_def st'_def)
    then show ?thesis
      by (intro exI [of _ st'] exI [of _ "[]"]) (simp add: st'_def)
  qed
qed

lemma read_loop_progress:
  assumes "0 < tot" and "bytes_read st + sum_list (map enc ls) \<le> tot"
  shows "\<exists>st' ps. read_loop db enc tot st ls = Inr st'
     \<and> printed st' = printed st @ map Reading ps
     \<and> sorted_wrt (<) ps \<and> (\<forall>p\<in>set ps. last_percent st < p \<and> p \<le> 100)"
  using assms(2)
proof (induction ls arbitrary: st)
  case Nil
  show ?case by (intro exI [where x = "[]"] exI) simp
next
  case (Cons l ls)
  have "bytes_read st + enc l \<le> tot" using Cons.prems by simp
  from process_line_progress [where tot = tot and st = st and enc = enc and l = l and db = db, OF assms(1) this]
  obtain st1 ps1 where s1: "process_line db enc tot st l = Inr st1"
    and b1: "bytes_read st1 = bytes_read st + enc l"
    and p1: "printed st1 = printed st @ map Reading ps1"
    and c1: "ps1 = [] \<and> last_percent st1 = last_percent st
         \<or> (\<exists>p. ps1 = [p] \<and> last_percent st < p \<and> p \<le> 100 \<and> last_percent st1 = p)"
    by blast
  have "bytes_read st1 + sum_list (map enc ls) \<le> tot" using Cons.prems b1 by simp
  from Cons.IH [of st1, OF this]
  obtain st' ps where s: "read_loop db enc tot st1 ls = Inr st'"
    and p: "printed st' = printed st1 @ map Reading ps"
    and o: "sorted_wrt (<) ps" and r: "\<forall>p\<in>set ps. last_percent st1 < p \<and> p \<le> 100"
    by blast
  have "read_loop db enc tot st (l # ls) = Inr st'" using s1 s by simp
  moreover have "printed st' = printed st @ map Reading (ps1 @ ps)" using p p1 by simp
  moreover have "sorted_wrt (<) (ps1 @ ps)" using c1 o r by (auto simp: sorted_wrt_append)
  moreover have "\<forall>p\<in>set (ps1 @ ps). last_percent st < p \<and> p \<le> 100"
    using c1 r by auto
  ultimately show ?case by blast
qed

lemma run_completes:
  assumes "path_exists w" and "raises w = None" and "0 < total_size w"
    and "sum_list (map enc (lines w)) \<le> total_size w"
  shows "\<exists>ps. sorted_wrt (<) ps \<and> (\<forall>p\<in>set ps. 0 \<le> p \<and> p \<le> 100)
     \<and> count_keywords db enc w =
         (let out = [AnalyzingFile] @ map Reading ps
                     @ [Reading 100, FileReadingComplete, WritingResults];
              kc = fold (process_token db) (all_tokens db (lines w)) []
          in if write_fails w
             then \<lparr> stdout = out @ [ErrorWritingCsv], csv = WriteFailed \<rparr>
             else \<lparr> stdout = out @ [CsvCreated], csv = Written (csv_rows (sorted_keywords kc)) \<rparr>)"
proof -
  define st0 where "st0 = \<lparr> keyword_counts = [], bytes_read = 0, last_percent = - 1,
                    printed = [AnalyzingFile] \<rparr>"
  have "bytes_read st0 + sum_list (map enc (lines w)) \<le> total_size w"
    using assms(4) by (simp add: st0_def)
  from read_loop_progress [where tot = "total_size w" and st = st0 and enc = enc and ls = "lines w" and db = db, OF assms(3) this]
  obtain st' ps where s: "read_loop db enc (total_size w) st0 (lines w) = Inr st'"
    and p: "printed st' = printed st0 @ map Reading ps"
    and o: "sorted_wrt (<) ps" and r: "\<forall>p\<in>set ps. last_percent st0 < p \<and> p \<le> 100"
    by blast
  have k: "keyword_counts st' = fold (process_token db) (all_tokens db (lines w)) []"
    using read_loop_counts [OF s] by (simp add: st0_def)
  have "\<forall>p\<in>set ps. 0 \<le> p \<and> p \<le> 100" using r by (auto simp: st0_def)
  moreover have "count_keywords db enc w =
         (let out = [AnalyzingFile] @ map Reading ps
                     @ [Reading 100, FileReadingComplete, WritingResults];
              kc = fold (process_token db) (all_tokens db (lines w)) []
          in if write_fails w
             then \<lparr> stdout = out @ [ErrorWritingCsv], csv = WriteFailed \<rparr>
             else \<lparr> stdout = out @ [CsvCreated], csv = Written (csv_rows (sorted_keywords kc)) \<rparr>)"
    using assms(1,2) s p k unfolding count_keywords_def st0_def [symmetric]
    by (simp add: Let_def st0_def)
  ultimately show ?thesis using o by blast
qed


text \<open>
  C6, as amended. When the file exists, is read to its end, has a positive size, and
  the encoded lengths of its lines add up to no more than that size (as they do for a
  file read as UTF-8), the percentages printed are \<open>ps\<close> followed by one final 100: the
  \<open>ps\<close>, printed by the loop, increase strictly and lie between 0 and 100, and the whole
  sequence is non-decreasing. The final 100 is printed once, after the loop, whatever
  the last percentage of the loop was.
\<close>

theorem progress_nondecreasing:
  assumes "path_exists w" and "raises w = None" and "0 < total_size w"
    and "sum_list (map enc (lines w)) \<le> total_size w"
  shows "\<exists>ps. percentages (stdout (count_keywords db enc w)) = ps @ [100]
     \<and> sorted_wrt (<) ps \<and> (\<forall>p\<in>set ps. 0 \<le> p \<and> p \<le> 100)
     \<and> sorted (percentages (stdout (count_keywords db enc w)))"
proof -
  from run_completes [OF assms, of db]
  obtain ps where o: "sorted_wrt (<) ps" and r: "\<forall>p\<in>set ps. 0 \<le> p \<and> p \<le> 100"
    and c: "count_keywords db enc w =
         (let out = [AnalyzingFile] @ map Reading ps
                     @ [Reading 100, FileReadingComplete, WritingResults];
              kc = fold (process_token db) (all_tokens db (lines w)) []
          in if write_fails w
             then \<lparr> stdout = out @ [ErrorWritingCsv], csv = WriteFailed \<rparr>
             else \<lparr> stdout = out @ [CsvCreated], csv = Written (csv_rows (sorted_keywords kc)) \<rparr>)"
    by blast
  have e: "percentages (stdout (count_keywords db enc w)) = ps @ [100]"
    unfolding c
    by (simp add: Let_def percentages_append percentages_Reading percentages_Cons percentages_Nil)
  have "sorted ps" using o by (simp add: strict_sorted_iff)
  then have "sorted (ps @ [100])" using r by (simp add: sorted_append)
  with e o r show ?thesis by auto
qed

lemma percent_6_of_10: "current_percent 6 10 = Inr 60"
proof -
  have b1: "binary64 (of_nat 6 / of_nat 10) = 5404319552844595 / 9007199254740992"
    by code_simp
  have b2: "binary64 (5404319552844595 / 9007199254740992 * 100) = 60"
    by code_simp
  have b3: "\<not> (2::rat) ^ 1024 \<le> 5404319552844595 / 9007199254740992" by simp
  have b4: "\<not> (2::rat) ^ 1024 \<le> 60" by simp
  show ?thesis unfolding current_percent_def Let_def b1 b2 using b3 b4 by simp
qed

lemma percent_12_of_10: "current_percent 12 10 = Inr 120"
proof -
  have b1: "binary64 (of_nat 12 / of_nat 10) = 5404319552844595 / 4503599627370496"
    by code_simp
  have b2: "binary64 (5404319552844595 / 4503599627370496 * 100) = 120"
    by code_simp
  have b3: "\<not> (2::rat) ^ 1024 \<le> 5404319552844595 / 4503599627370496" by simp
  have b4: "\<not> (2::rat) ^ 1024 \<le> 120" by simp
  show ?thesis unfolding current_percent_def Let_def b1 b2 using b3 b4 by simp
qed

text \<open>
  The percentage is computed in floating point: it can be one less than the floor of the
  exact quotient. At 29 bytes of 100 it is 28, since the nearest \<^verbatim>\<open>float\<close> to 29/100 is
  smaller than 29/100.
\<close>

lemma percent_29_of_100: "current_percent 29 100 = Inr 28"
proof -
  have b1: "binary64 (of_nat 29 / of_nat 100) = 5224175567749775 / 18014398509481984"
    by code_simp
  have b2: "binary64 (5224175567749775 / 18014398509481984 * 100)
      = 8162774324609023 / 281474976710656"
    by code_simp
  have b3: "\<not> (2::rat) ^ 1024 \<le> 5224175567749775 / 18014398509481984" by simp
  have b4: "\<not> (2::rat) ^ 1024 \<le> 8162774324609023 / 281474976710656" by simp
  have b5: "\<lfloor>8162774324609023 / 281474976710656 :: rat\<rfloor> = 28" by code_simp
  show ?thesis unfolding current_percent_def Let_def b1 b2 using b3 b4 b5 by simp
qed

text \<open>
  The claim C6 as stated, for every non-empty input, fails when the encoded lengths
  exceed the size of the file. Read as UTF-16, every line is counted with a byte-order
  mark of its own: after the second of two lines, 12 bytes of 10 are counted, and the
  percentages printed are 60, 120 and then the final 100.
\<close>

theorem progress_utf16_counterexample:
  "0 < total_size utf16_two_lines
   \<and> percentages (stdout (count_keywords latin1_db utf16_len utf16_two_lines)) = [60, 120, 100]
   \<and> \<not> sorted (percentages (stdout (count_keywords latin1_db utf16_len utf16_two_lines)))"
proof -
  have "percentages (stdout (count_keywords latin1_db utf16_len utf16_two_lines)) = [60, 120, 100]"
    by (simp add: count_keywords_def utf16_two_lines_def process_line_def utf16_len_def
        percent_6_of_10 percent_12_of_10 percentages_def Let_def)
  then show ?thesis by (simp add: utf16_two_lines_def)
qed

theorem progress_nondecreasing_witness:
  "path_exists scenario \<and> raises scenario = None \<and> 0 < total_size scenario
   \<and> sum_list (map utf8_len (lines scenario)) \<le> total_size scenario
   \<and> (\<exists>ps. percentages (stdout (count_keywords latin1_db utf8_len scenario)) = ps @ [100]
     \<and> sorted_wrt (<) ps \<and> (\<forall>p\<in>set ps. 0 \<le> p \<and> p \<le> 100)
     \<and> sorted (percentages (stdout (count_keywords latin1_db utf8_len scenario))))"
proof -
  have h: "path_exists scenario" "raises scenario = None" "0 < total_size scenario"
    "sum_list (map utf8_len (lines scenario)) \<le> total_size scenario"
    by (simp_all add: scenario_def utf8_len_def ascii_def)
  show ?thesis
    using h progress_nondecreasing [OF h, of latin1_db] by simp
qed

text \<open>
  A file of zero bytes yields no line. The loop body, and with it the division by
  \<open>total_size\<close>, is then never run: the run prints the final 100 percent as its only
  percentage, prints no error of the reading block and goes on to write the report.
\<close>

lemma empty_file_completes:
  assumes "path_exists w" and "raises w = None" and "lines w = []"
  shows "stdout (count_keywords db enc w)
      = [AnalyzingFile, Reading 100, FileReadingComplete, WritingResults,
         if write_fails w then ErrorWritingCsv else CsvCreated]
    \<and> percentages (stdout (count_keywords db enc w)) = [100]"
  using assms by (simp add: count_keywords_def percentages_def Let_def)

text \<open>
  C8. The claim, that a size of zero leads to no division by zero and to a run that
  completes at 100 percent, does not hold of the code: the division by \<open>total_size\<close> has
  no guard. Whenever the size of the file is reported as zero and the file still yields a
  line (as the files of \<^verbatim>\<open>/proc\<close> do), the first run of the loop body raises
  \<^verbatim>\<open>ZeroDivisionError\<close>: the run prints the error and the advice to change the encoding,
  prints no percentage at all, and writes no report.
\<close>

theorem zero_size_division_by_zero:
  "count_keywords db enc
     \<lparr> path_exists = True, total_size = 0, lines = l # ls, raises = r, write_fails = f \<rparr>
   = \<lparr> stdout = [AnalyzingFile, ErrorWhileReading ZeroDivisionError, TryChangingEncoding],
       csv = NotWritten \<rparr>
   \<and> percentages (stdout (count_keywords db enc
        \<lparr> path_exists = True, total_size = 0, lines = l # ls, raises = r, write_fails = f \<rparr>)) = []"
proof -
  have "count_keywords db enc
     \<lparr> path_exists = True, total_size = 0, lines = l # ls, raises = r, write_fails = f \<rparr>
   = \<lparr> stdout = [AnalyzingFile, ErrorWhileReading ZeroDivisionError, TryChangingEncoding],
       csv = NotWritten \<rparr>"
    by (simp add: count_keywords_def process_line_def current_percent_def except_reading_def
        Let_def)
  then show ?thesis by (simp add: percentages_def)
qed






subsection \<open>The report\<close>

lemma sorted_keywords_ordered:
  assumes "distinct (map fst kc)"
  shows "sorted_wrt row_before (sorted_keywords kc) \<and> distinct (map fst (sorted_keywords kc))"
proof -
  let ?f = "\<lambda>item :: str \<times> int. (- snd item, fst item)"
  let ?rows = "sorted_keywords kc"
  have d: "distinct (map fst ?rows)"
    using assms by (simp add: sorted_keywords_def distinct_map)
  have inj: "inj_on ?f (set ?rows)"
    by (rule inj_onI) (simp add: prod_eq_iff)
  have "distinct (map ?f ?rows)"
    using d inj by (simp add: distinct_map)
  moreover have "sorted (map ?f ?rows)"
    by (simp add: sorted_keywords_def)
  ultimately have "sorted_wrt (<) (map ?f ?rows)"
    by (simp add: strict_sorted_iff)
  then have "sorted_wrt (\<lambda>x y. ?f x < ?f y) ?rows"
    by (simp add: sorted_wrt_map)
  then have "sorted_wrt row_before ?rows"
    by (rule sorted_wrt_mono_rel [rotated]) (auto simp: row_before_def less_prod_def)
  with d show ?thesis by simp
qed

text \<open>
  The order on tokens is that of Python on \<^verbatim>\<open>str\<close>: a proper prefix comes first, and
  otherwise the first position where the tokens differ decides, by code point.
\<close>

lemma token_order:
  "(xs :: str) < ys \<longleftrightarrow>
     (\<exists>c cs. ys = xs @ c # cs) \<or> (\<exists>p a b u v. xs = p @ a # u \<and> ys = p @ b # v \<and> a < b)"
  unfolding list_less_def lexord_def by (simp, blast)

lemma row_before_total:
  "fst r1 \<noteq> fst r2 \<Longrightarrow> row_before r1 r2 \<longleftrightarrow> \<not> row_before r2 r1"
  by (auto simp: row_before_def)

text \<open>
  C5. In the report that is written, every two adjacent rows are in the order
  \<open>row_before\<close>: the first has the greater count, or the counts are equal and the first
  has the smaller token, lexicographically by code point. The tokens of the rows are
  distinct, and of two different rows exactly one comes before the other: no two rows
  compare equal.
\<close>

theorem report_ordered:
  assumes "csv (count_keywords db enc w) = Written file"
  shows "\<exists>rows. file = csv_rows rows
     \<and> successively row_before rows
     \<and> distinct (map fst rows)
     \<and> (\<forall>r1\<in>set rows. \<forall>r2\<in>set rows. r1 \<noteq> r2 \<longrightarrow> (row_before r1 r2 \<longleftrightarrow> \<not> row_before r2 r1))"
proof -
  let ?kc = "fold (process_token db) (all_tokens db (lines w)) []"
  have f: "file = csv_rows (sorted_keywords ?kc)"
    using assms by (rule csv_written)
  have "distinct (map fst ?kc)"
    by (rule distinct_fold_process_token) simp
  then have o: "sorted_wrt row_before (sorted_keywords ?kc)"
    and d: "distinct (map fst (sorted_keywords ?kc))"
    using sorted_keywords_ordered by blast+
  have "\<forall>r1\<in>set (sorted_keywords ?kc). \<forall>r2\<in>set (sorted_keywords ?kc).
      r1 \<noteq> r2 \<longrightarrow> (row_before r1 r2 \<longleftrightarrow> \<not> row_before r2 r1)"
  proof (intro ballI impI)
    fix r1 r2
    assume "r1 \<in> set (sorted_keywords ?kc)" "r2 \<in> set (sorted_keywords ?kc)" "r1 \<noteq> r2"
    then have "fst r1 \<noteq> fst r2"
      using d by (metis distinct_map inj_onD)
    then show "row_before r1 r2 \<longleftrightarrow> \<not> row_before r2 r1"
      by (rule row_before_total)
  qed
  with f d successively_if_sorted_wrt [OF o] show ?thesis by blast
qed

text \<open>
  C9. A pair \<open>(t, n)\<close> is a row of the report exactly when the token \<open>t\<close> was counted at
  least once and \<open>n\<close> is the number of times it was counted; so every row has a strictly
  positive count.
\<close>

theorem report_rows_counted:
  assumes "csv (count_keywords db enc w) = Written file"
  shows "\<exists>rows. file = csv_rows rows
     \<and> (\<forall>t n. (t, n) \<in> set rows \<longleftrightarrow>
           n = int (count_list (filter (counted db) (all_tokens db (lines w))) t)
           \<and> t \<in> set (filter (counted db) (all_tokens db (lines w))))
     \<and> (\<forall>row\<in>set rows. 0 < snd row)"
proof -
  let ?ts = "all_tokens db (lines w)"
  let ?kc = "fold (process_token db) ?ts []"
  have f: "file = csv_rows (sorted_keywords ?kc)"
    using assms by (rule csv_written)
  have s: "set (sorted_keywords ?kc) = set ?kc"
    by (simp add: sorted_keywords_def)
  have r: "\<forall>t n. (t, n) \<in> set (sorted_keywords ?kc) \<longleftrightarrow>
           n = int (count_list (filter (counted db) ?ts) t) \<and> t \<in> set (filter (counted db) ?ts)"
    unfolding s using counter_rows by blast
  have "\<forall>row\<in>set (sorted_keywords ?kc). 0 < snd row"
  proof
    fix row assume "row \<in> set (sorted_keywords ?kc)"
    then have "(fst row, snd row) \<in> set (sorted_keywords ?kc)" by simp
    with r have "snd row = int (count_list (filter (counted db) ?ts) (fst row))"
      and "fst row \<in> set (filter (counted db) ?ts)" by blast+
    then show "0 < snd row"
      using count_list_0_iff [of "filter (counted db) ?ts" "fst row"] by simp
  qed
  with f r show ?thesis by blast
qed


lemma scenario_tokens:
  "all_tokens db (lines scenario) =
     [ascii ''name'', ascii ''size'', ascii ''10'', ascii ''color'', ascii ''1.0'', ascii ''0.5'',
      ascii ''0.2'', ascii ''name'', ascii ''enabled'']"
proof -
  have "line_tokens db (ascii ''name = '' @ [34] @ ascii ''Test Block'' @ [34, 10]) = [ascii ''name'']"
    by code_simp
  moreover have "line_tokens db (ascii ''size = 10'' @ [10]) = [ascii ''size'', ascii ''10'']"
    by code_simp
  moreover have "line_tokens db (ascii ''color = { 1.0 0.5 0.2 }'' @ [10])
      = [ascii ''color'', ascii ''1.0'', ascii ''0.5'', ascii ''0.2'']"
    by code_simp
  moreover have "line_tokens db (ascii ''name = enabled'' @ [10]) = [ascii ''name'', ascii ''enabled'']"
    by code_simp
  ultimately show ?thesis by (simp add: all_tokens_def scenario_def)
qed

lemma scenario_counted:
  "counted db (ascii ''name'')" "counted db (ascii ''size'')" "counted db (ascii ''color'')"
  "counted db (ascii ''enabled'')" "\<not> counted db (ascii ''10'')" "\<not> counted db (ascii ''1.0'')"
  "\<not> counted db (ascii ''0.5'')" "\<not> counted db (ascii ''0.2'')"
  by code_simp+

lemma scenario_counts:
  "fold (process_token db) (all_tokens db (lines scenario)) []
     = [(ascii ''name'', 2), (ascii ''size'', 1), (ascii ''color'', 1), (ascii ''enabled'', 1)]"
proof -
  have ne: "ascii ''size'' \<noteq> ascii ''name''" "ascii ''color'' \<noteq> ascii ''name''"
    "ascii ''color'' \<noteq> ascii ''size''" "ascii ''enabled'' \<noteq> ascii ''name''"
    "ascii ''enabled'' \<noteq> ascii ''size''" "ascii ''enabled'' \<noteq> ascii ''color''"
    by (simp_all add: ascii_def)
  have pt: "\<And>t kc. process_token db t kc = (if counted db t then counter_add t kc else kc)"
    by (rule process_token_counted)
  show ?thesis
    unfolding scenario_tokens by (simp add: pt scenario_counted ne)
qed

lemma scenario_written:
  "csv (count_keywords db utf8_len scenario)
     = Written (csv_rows (sorted_keywords
         [(ascii ''name'', 2), (ascii ''size'', 1), (ascii ''color'', 1), (ascii ''enabled'', 1)]))"
proof -
  have h: "path_exists scenario" "raises scenario = None" "0 < total_size scenario"
    "sum_list (map utf8_len (lines scenario)) \<le> total_size scenario"
    by (simp_all add: scenario_def utf8_len_def ascii_def)
  have w: "\<not> write_fails scenario" by (simp add: scenario_def)
  from run_completes [OF h, of db] w show ?thesis
    by (auto simp: Let_def scenario_counts)
qed

lemma scenario_sorted:
  "sorted_keywords
     [(ascii ''name'', 2), (ascii ''size'', 1), (ascii ''color'', 1), (ascii ''enabled'', 1)]
   = [(ascii ''name'', 2), (ascii ''color'', 1), (ascii ''enabled'', 1), (ascii ''size'', 1)]"
  by code_simp

text \<open>
  C1. For the file of the four lines \<^verbatim>\<open>name = "Test Block"\<close>, \<^verbatim>\<open>size = 10\<close>,
  \<^verbatim>\<open>color = { 1.0 0.5 0.2 }\<close> and \<^verbatim>\<open>name = enabled\<close>, the rows written after the header
  are (name, 2), (color, 1), (enabled, 1), (size, 1), in that order.
\<close>

theorem scenario_report:
  "csv (count_keywords db utf8_len scenario) =
     Written [[S (ascii ''Keyword''), S (ascii ''Count'')],
              [S (ascii ''name''), I 2],
              [S (ascii ''color''), I 1],
              [S (ascii ''enabled''), I 1],
              [S (ascii ''size''), I 1]]"
  unfolding scenario_written scenario_sorted by (simp add: csv_rows_def)

theorem report_ordered_witness:
  "csv (count_keywords latin1_db utf8_len scenario)
     = Written (csv_rows (sorted_keywords
         [(ascii ''name'', 2), (ascii ''size'', 1), (ascii ''color'', 1), (ascii ''enabled'', 1)]))
   \<and> (\<exists>rows. csv_rows (sorted_keywords
         [(ascii ''name'', 2), (ascii ''size'', 1), (ascii ''color'', 1), (ascii ''enabled'', 1)])
         = csv_rows rows
     \<and> successively row_before rows
     \<and> distinct (map fst rows)
     \<and> (\<forall>r1\<in>set rows. \<forall>r2\<in>set rows. r1 \<noteq> r2 \<longrightarrow> (row_before r1 r2 \<longleftrightarrow> \<not> row_before r2 r1)))"
  using scenario_written [of latin1_db]
    report_ordered [OF scenario_written [of latin1_db]]
  by simp

theorem report_rows_counted_witness:
  "csv (count_keywords latin1_db utf8_len scenario)
     = Written (csv_rows (sorted_keywords
         [(ascii ''name'', 2), (ascii ''size'', 1), (ascii ''color'', 1), (ascii ''enabled'', 1)]))
   \<and> (\<exists>rows. csv_rows (sorted_keywords
         [(ascii ''name'', 2), (ascii ''size'', 1), (ascii ''color'', 1), (ascii ''enabled'', 1)])
         = csv_rows rows
     \<and> (\<forall>t n. (t, n) \<in> set rows \<longleftrightarrow>
           n = int (count_list (filter (counted latin1_db) (all_tokens latin1_db (lines scenario))) t)
           \<and> t \<in> set (filter (counted latin1_db) (all_tokens latin1_db (lines scenario))))
     \<and> (\<forall>row\<in>set rows. 0 < snd row))"
  using scenario_written [of latin1_db]
    report_rows_counted [OF scenario_written [of latin1_db]]
  by simp

subsection \<open>Keywords and numbers\<close>

lemma word_fullmatch_not_operator:
  "word_fullmatch db token \<Longrightarrow> token \<noteq> [] \<and> token \<noteq> [61] \<and> token \<noteq> [123] \<and> token \<noteq> [125]"
  by (auto simp: word_fullmatch_def is_word_char_def is_ascii_digit_def)

lemma counted_iff:
  "counted db token \<longleftrightarrow> word_fullmatch db token \<and> \<not> is_number db token"
  using word_fullmatch_not_operator [of db token] by (auto simp: counted_def)

lemma word_fullmatch_ascii:
  "\<forall>c\<in>set token. c < 128 \<Longrightarrow> word_fullmatch db token = ascii_word_spec token"
proof -
  assume a: "\<forall>c\<in>set token. c < 128"
  have "list_all (is_word_char db) token
      = list_all (\<lambda>c. (65 \<le> c \<and> c \<le> 90) \<or> (97 \<le> c \<and> c \<le> 122) \<or> (48 \<le> c \<and> c \<le> 57) \<or> c = 95) token"
    unfolding list_all_iff using a by (auto simp: is_word_char_def is_ascii_digit_def)
  then show ?thesis by (simp add: word_fullmatch_def ascii_word_spec_def)
qed

text \<open>
  C2, as amended. A token is counted exactly when the whole of it matches \<^verbatim>\<open>\w+\<close>, every
  character being a Unicode alphanumeric or the underscore, and it is not discarded as a
  number; any other token leaves the counter as it is, neither split nor cleaned. On a
  token of ASCII characters \<^verbatim>\<open>\w+\<close> is the class \<^verbatim>\<open>[A-Za-z0-9_]+\<close>.
\<close>

theorem keyword_iff_unicode_word:
  "(counted db token \<longleftrightarrow> word_fullmatch db token \<and> \<not> is_number db token)
   \<and> process_token db token kc = (if counted db token then counter_add token kc else kc)
   \<and> ((\<forall>c\<in>set token. c < 128) \<longrightarrow> word_fullmatch db token = ascii_word_spec token)"
  using counted_iff [of db token] word_fullmatch_ascii [of token db]
  by (simp add: process_token_counted)

theorem keyword_iff_unicode_word_witness:
  "list_all (\<lambda>c. c < 128) (ascii ''v2'')
   \<and> counted latin1_db (ascii ''v2'')
   \<and> word_fullmatch latin1_db (ascii ''v2'') \<and> \<not> is_number latin1_db (ascii ''v2'')
   \<and> ascii_word_spec (ascii ''v2'')
   \<and> process_token latin1_db (ascii ''v2'') [] = [(ascii ''v2'', 1)]"
proof -
  have a: "\<forall>c\<in>set (ascii ''v2''). c < 128" by (simp add: ascii_def)
  have n: "\<not> is_number latin1_db (ascii ''v2'')" by code_simp
  have s: "ascii_word_spec (ascii ''v2'')" by code_simp
  show ?thesis
    using a n s keyword_iff_unicode_word [of latin1_db "ascii ''v2''" "[]"]
    by (simp add: list_all_iff)
qed

text \<open>
  The claim C2 as stated fails on a letter beyond ASCII: the line made of the one
  character U+00E9 gives that character as its token, the token is counted, and it does
  not match \<^verbatim>\<open>[A-Za-z0-9_]+\<close>.
\<close>

theorem unicode_word_counterexample:
  "line_tokens latin1_db [233, 10] = [[233]]
   \<and> process_token latin1_db [233] [] = [([233], 1)]
   \<and> \<not> (ascii_word_spec [233] \<and> \<not> is_number latin1_db [233])"
proof -
  have "line_tokens latin1_db [233, 10] = [[233]]" by code_simp
  moreover have "process_token latin1_db [233] [] = [([233], 1)]" by code_simp
  moreover have "\<not> ascii_word_spec [233]" by code_simp
  ultimately show ?thesis by simp
qed

lemma drop_sign_chars:
  "list_all num_char (drop_sign s) \<Longrightarrow> drop_sign s \<noteq> [] \<Longrightarrow> list_all num_char s"
  by (cases s) (auto simp: drop_sign_def num_char_def split: if_splits)

lemma exponent_part_chars: "exponent_part s \<Longrightarrow> list_all num_char s"
proof (cases s)
  case Nil
  then show ?thesis by simp
next
  case (Cons c cs)
  assume "exponent_part s"
  with Cons have c: "c = 101 \<or> c = 69" and n: "drop_sign cs \<noteq> []"
    and d: "list_all is_ascii_digit (drop_sign cs)"
    by (auto simp: exponent_part_def)
  from d have "list_all num_char (drop_sign cs)"
    by (auto simp: list_all_iff num_char_def)
  then have "list_all num_char cs" using n by (rule drop_sign_chars)
  with c Cons show ?thesis by (auto simp: num_char_def)
qed

lemma digits_chars: "list_all num_char (takeWhile is_ascii_digit s)"
  by (auto simp: list_all_iff num_char_def dest: set_takeWhileD)

lemma list_all_take_drop:
  "list_all P (takeWhile Q xs) \<Longrightarrow> list_all P (dropWhile Q xs) \<Longrightarrow> list_all P xs"
  by (metis list_all_append takeWhile_dropWhile_id)

lemma decimal_number_chars: "decimal_number s \<Longrightarrow> list_all num_char s \<and> s \<noteq> []"
proof -
  assume a: "decimal_number s"
  show ?thesis
  proof (cases "dropWhile is_ascii_digit s")
    case Nil
    with a have "takeWhile is_ascii_digit s \<noteq> []" by (simp add: decimal_number_def Let_def)
    moreover have "list_all num_char s"
    proof (rule list_all_take_drop)
      show "list_all num_char (takeWhile is_ascii_digit s)" by (rule digits_chars)
      show "list_all num_char (dropWhile is_ascii_digit s)" unfolding Nil by simp
    qed
    ultimately show ?thesis by auto
  next
    case (Cons c cs)
    have "list_all num_char (c # cs)"
    proof (cases "c = 46")
      case True
      with a Cons have "exponent_part (dropWhile is_ascii_digit cs)"
        by (simp add: decimal_number_def Let_def)
      then have "list_all num_char (dropWhile is_ascii_digit cs)" by (rule exponent_part_chars)
      with digits_chars [of cs] have "list_all num_char cs" by (rule list_all_take_drop)
      with True show ?thesis by (simp add: num_char_def)
    next
      case False
      with a Cons have "exponent_part (c # cs)" by (simp add: decimal_number_def Let_def)
      then show ?thesis by (rule exponent_part_chars)
    qed
    then have "list_all num_char (dropWhile is_ascii_digit s)" using Cons by simp
    with digits_chars [of s] have "list_all num_char s" by (rule list_all_take_drop)
    moreover have "s \<noteq> []" using Cons by auto
    ultimately show ?thesis by simp
  qed
qed

lemma strip_c_space_id:
  "\<forall>c\<in>set s. \<not> c_isspace c \<Longrightarrow> strip_c_space s = s"
proof -
  assume a: "\<forall>c\<in>set s. \<not> c_isspace c"
  have d: "\<And>t. \<forall>c\<in>set t. \<not> c_isspace c \<Longrightarrow> dropWhile c_isspace t = t"
    by (metis dropWhile_eq_self_iff hd_in_set)
  have "dropWhile c_isspace s = s" using a by (rule d)
  moreover have "dropWhile c_isspace (rev s) = rev s" using a by (intro d) simp
  ultimately show ?thesis by (simp add: strip_c_space_def)
qed

lemma numeric_literal_is_number:
  "numeric_literal_spec s \<Longrightarrow> is_number db s"
proof -
  assume a: "numeric_literal_spec s"
  then have dn: "decimal_number (drop_sign s)" by (simp add: numeric_literal_spec_def)
  then have "list_all num_char (drop_sign s)" "drop_sign s \<noteq> []"
    using decimal_number_chars by blast+
  then have n: "list_all num_char s" by (rule drop_sign_chars)
  have ascii: "list_all (\<lambda>c. c < 128) s"
    using n by (auto simp: list_all_iff num_char_def is_ascii_digit_def)
  have us: "95 \<notin> set s"
    using n by (auto simp: list_all_iff num_char_def is_ascii_digit_def)
  have "\<forall>c\<in>set s. \<not> c_isspace c"
    using n by (auto simp: list_all_iff num_char_def is_ascii_digit_def c_isspace_def)
  then have "strip_c_space s = s" by (rule strip_c_space_id)
  then show ?thesis
    using ascii us dn
    by (simp add: is_number_def float_parses_def transform_decimal_and_space_def Let_def
        string_to_double_ok_def)
qed

text \<open>
  C3. The claim, that a token is discarded as numeric exactly when the whole of it is
  a decimal number, does not hold of the code: \<^verbatim>\<open>float\<close> also accepts \<^verbatim>\<open>nan\<close>. On the line
  \<^verbatim>\<open>nan = 1\<close> the token \<^verbatim>\<open>nan\<close> is no decimal number, is a word of \<^verbatim>\<open>[A-Za-z0-9_]+\<close>, and
  yet \<^verbatim>\<open>is_number\<close> holds of it and it is not counted.
\<close>

theorem nan_discarded_as_number:
  "line_tokens db (ascii ''nan = 1'' @ [10]) = [ascii ''nan'', ascii ''1'']
   \<and> is_number db (ascii ''nan'')
   \<and> \<not> numeric_literal_spec (ascii ''nan'')
   \<and> ascii_word_spec (ascii ''nan'')
   \<and> process_token db (ascii ''nan'') [] = []"
proof -
  have "line_tokens db (ascii ''nan = 1'' @ [10]) = [ascii ''nan'', ascii ''1'']" by code_simp
  moreover have "is_number db (ascii ''nan'')" by code_simp
  moreover have "\<not> numeric_literal_spec (ascii ''nan'')" by code_simp
  moreover have "ascii_word_spec (ascii ''nan'')" by code_simp
  moreover have "process_token db (ascii ''nan'') [] = []" by code_simp
  ultimately show ?thesis by simp
qed

lemma numeric_examples:
  "is_number db (ascii ''42'')" "is_number db (ascii ''-3.14'')" "is_number db (ascii ''0.5'')"
  "\<not> is_number db (ascii ''v2'')" "counted db (ascii ''v2'')"
  "numeric_literal_spec (ascii ''42'')" "numeric_literal_spec (ascii ''-3.14'')"
  "numeric_literal_spec (ascii ''0.5'')" "\<not> numeric_literal_spec (ascii ''v2'')"
  by code_simp+

lemma more_tokens_discarded_as_numbers:
  "is_number db (ascii ''inf'')" "is_number db (ascii ''Infinity'')" "is_number db (ascii ''NaN'')"
  "is_number db (ascii ''1_000'')"
  "\<not> numeric_literal_spec (ascii ''inf'')" "\<not> numeric_literal_spec (ascii ''Infinity'')"
  "\<not> numeric_literal_spec (ascii ''NaN'')" "\<not> numeric_literal_spec (ascii ''1_000'')"
  by code_simp+

end
